theory Spec2Isabelle
  imports
    Main
    "HOL-Library.AList"
    "HOL-Library.Char_ord"
    "HOL-Library.List_Lexorder"
begin

section \<open>Python exceptions\<close>

text \<open>
  The exceptions that the modelled functions can raise. A function that may raise returns
  \<open>error + 'a\<close>, with \<open>Inl\<close> for the exception. \<open>KeyError\<close> and \<open>ValueError\<close> carry the
  key and the message as the source gives them.
\<close>

datatype error =
    KeyError string
  | ValueError string
  | IndexError
  | ZeroDivisionError
  | StopIteration
  | FileNotFoundError
  | TypeError
  | RuntimeError
  | RecursionError

section \<open>\<open>utility.to_device\<close>\<close>

text \<open>
  The Python values that \<open>to_device\<close> can be handed. A tensor carries its payload and the
  device it lives on; \<open>x.to(device)\<close> keeps the payload and changes the device. Tuples,
  numbers, strings and \<open>None\<close> stand for the values that are neither a tensor, a list nor
  a dict.
\<close>

datatype ('t, 'dev) pyobj =
    Tensor 't 'dev
  | PyList "('t, 'dev) pyobj list"
  | PyDict "(string \<times> ('t, 'dev) pyobj) list"
  | PyTuple "('t, 'dev) pyobj list"
  | PyInt int
  | PyStr string
  | PyNone






section \<open>\<open>zip_dicts\<close>\<close>

text \<open>
  A dict is the list of its items in insertion order, with distinct keys. The argument
  \<open>ds\<close> is an iterator: \<open>next(ds)\<close> on an exhausted one raises \<open>StopIteration\<close>.

  \<open>d[k].append(v)\<close> looks \<open>k\<close> up first: a key that \<open>d\<close> does not have raises \<open>KeyError\<close>.
  The handler around it catches \<open>AttributeError\<close> only, and \<open>d[k]\<close> is always a list,
  whose \<open>append\<close> exists: the handler is never entered, and the \<open>KeyError\<close> leaves the
  function as it is.
\<close>

fun append_items ::
  "(string \<times> 'v list) list \<Rightarrow> (string \<times> 'v) list \<Rightarrow> error + (string \<times> 'v list) list" where
  "append_items d [] = Inr d"
| "append_items d ((k, v) # kvs) =
     (case map_of d k of
        None \<Rightarrow> Inl (KeyError k)
      | Some vs \<Rightarrow> append_items (AList.update k (vs @ [v]) d) kvs)"

fun zip_loop ::
  "(string \<times> 'v list) list \<Rightarrow> (string \<times> 'v) list list \<Rightarrow> error + (string \<times> 'v list) list" where
  "zip_loop d [] = Inr d"
| "zip_loop d (d' # ds) =
     (case append_items d d' of
        Inl e \<Rightarrow> Inl e
      | Inr d'' \<Rightarrow> zip_loop d'' ds)"

definition zip_dicts :: "(string \<times> 'v) list list \<Rightarrow> error + (string \<times> 'v list) list" where
  "zip_dicts ds =
     (case ds of
        [] \<Rightarrow> Inl StopIteration
      | d0 # rest \<Rightarrow> zip_loop (map (\<lambda>k. (k, [])) (map fst d0)) (d0 # rest))"

section \<open>Checkpoints: \<open>store_state\<close> and \<open>restore_state\<close>\<close>

text \<open>
  A checkpoint is a dict from strings to values of three kinds: a model state, a list of
  optimizer states, an iteration number. \<open>t.save\<close> and \<open>t.load\<close> write and read it under a
  file name; the file system is a map from names to checkpoints. A model and an optimizer
  are known by their state: \<open>state_dict()\<close> reads it, \<open>load_state_dict\<close> replaces it.
\<close>

datatype ('m, 'o) entry =
    StateDict 'm
  | StateDicts "'o list"
  | Iteration int

type_synonym ('m, 'o) checkpoint = "string \<rightharpoonup> ('m, 'o) entry"

type_synonym ('m, 'o) files = "string \<rightharpoonup> ('m, 'o) checkpoint"

definition store_state ::
  "'m \<Rightarrow> 'o list \<Rightarrow> int \<Rightarrow> string \<Rightarrow> ('m, 'o) files \<Rightarrow> ('m, 'o) files" where
  "store_state model optimizers iteration file fs =
     fs(file \<mapsto>
        [''model'' \<mapsto> StateDict model,
         ''optimizers'' \<mapsto> StateDicts optimizers,
         ''iteration'' \<mapsto> Iteration iteration])"

text \<open>
  The loop over \<open>zip(optimizers, state['optimizers'])\<close>: \<open>zip\<close> stops at the shorter of
  the two, so an optimizer without a stored state keeps its own, and a stored state
  without an optimizer is not read.
\<close>

fun load_optimizers :: "'o list \<Rightarrow> 'o list \<Rightarrow> 'o list" where
  "load_optimizers (optimizer # optimizers) (optimizer_state # states) =
     optimizer_state # load_optimizers optimizers states"
| "load_optimizers optimizers [] = optimizers"
| "load_optimizers [] states = []"

text \<open>
  \<open>restore_state\<close> mutates the model and the optimizers as it goes, so the result is the
  pair of their states when the function is left, and what it returns or raises. An entry
  of the wrong kind is a \<open>TypeError\<close>.
\<close>

definition restore_state ::
  "'m \<Rightarrow> 'o list \<Rightarrow> string \<Rightarrow> ('m, 'o) files \<Rightarrow> ('m \<times> 'o list) \<times> (error + ('m, 'o) entry)" where
  "restore_state model optimizers file fs =
     (case fs file of
        None \<Rightarrow> ((model, optimizers), Inl FileNotFoundError)
      | Some state \<Rightarrow>
          (case state ''vae'' of
             None \<Rightarrow> ((model, optimizers), Inl (KeyError ''vae''))
           | Some (StateDict model') \<Rightarrow>
               (case state ''optimizers'' of
                  None \<Rightarrow> ((model', optimizers), Inl (KeyError ''optimizers''))
                | Some (StateDicts states) \<Rightarrow>
                    (let optimizers' = load_optimizers optimizers states in
                     case state ''iteration'' of
                       None \<Rightarrow> ((model', optimizers'), Inl (KeyError ''iteration''))
                     | Some iteration \<Rightarrow> ((model', optimizers'), Inr iteration))
                | Some _ \<Rightarrow> ((model', optimizers), Inl TypeError))
           | Some _ \<Rightarrow> ((model, optimizers), Inl TypeError)))"

section \<open>\<open>utility.with_interrupt_handler\<close>\<close>

text \<open>
  The process state is the installed SIGINT handler and the rest. The wrapped function
  runs on a process state and leaves one, with its result or the exception it raised.
  The wrapper has no \<open>try\<close>: an exception of \<open>func\<close> leaves it at once, before the last
  line. It returns nothing, whatever \<open>func\<close> returned.
\<close>

record ('h, 's) process =
  sigint :: 'h
  rest :: 's

definition with_interrupt_handler ::
  "'h \<Rightarrow> (('h, 's) process \<Rightarrow> (error + 'r) \<times> ('h, 's) process) \<Rightarrow>
   ('h, 's) process \<Rightarrow> (error + unit) \<times> ('h, 's) process" where
  "with_interrupt_handler handler func p =
     (let previous_handler = sigint p;
          p1 = p\<lparr>sigint := handler\<rparr>;
          (r, p2) = func p1
      in case r of
           Inl e \<Rightarrow> (Inl e, p2)
         | Inr _ \<Rightarrow> (Inr (), p2\<lparr>sigint := previous_handler\<rparr>))"

section \<open>\<open>utility.design_matrix_from\<close>\<close>

text \<open>
  A data frame has a number of rows (\<open>len(design)\<close>, which a frame without columns has
  too) and named columns, each name once. The values are strings already: \<open>astype(str)\<close>
  changes nothing here.

  A categorical column is the list of its categories and one code for each row: the
  position of the row's value in the categories, or \<open>-1\<close> for a value that is none of
  them (pandas' missing value).
\<close>

record 'c frame =
  nrows :: nat
  columns :: "(string \<times> 'c) list"

record categorical =
  categories :: "string list"
  codes :: "int list"

fun category_code :: "string list \<Rightarrow> string \<Rightarrow> int" where
  "category_code [] v = - 1"
| "category_code (c # cs) v =
     (if c = v then 0
      else (let i = category_code cs v in if i < 0 then - 1 else i + 1))"

text \<open>\<open>astype('category')\<close>: the categories are the values that occur, sorted.\<close>

definition astype_category :: "string list \<Rightarrow> categorical" where
  "astype_category vals =
     (let cats = sort (remdups vals)
      in \<lparr>categories = cats, codes = map (category_code cats) vals\<rparr>)"

text \<open>
  \<open>cat.set_categories(new, inplace=True)\<close>: every row keeps its value if the value is
  among the new categories, and loses it otherwise; a row without a value stays so.
\<close>

definition set_categories :: "string list \<Rightarrow> categorical \<Rightarrow> categorical" where
  "set_categories new_categories c =
     \<lparr>categories = new_categories,
      codes = map (\<lambda>k. if k < 0 then - 1
                        else category_code new_categories (categories c ! nat k)) (codes c)\<rparr>"

text \<open>\<open>design[[x, ...]]\<close>: the named columns in the order asked for; a missing name raises.\<close>

fun select_columns :: "string list \<Rightarrow> (string \<times> 'c) list \<Rightarrow> error + (string \<times> 'c) list" where
  "select_columns [] cols = Inr []"
| "select_columns (x # xs) cols =
     (case map_of cols x of
        None \<Rightarrow> Inl (KeyError x)
      | Some c \<Rightarrow>
          (case select_columns xs cols of
             Inl e \<Rightarrow> Inl e
           | Inr r \<Rightarrow> Inr ((x, c) # r)))"

text \<open>The loop \<open>for covariate, values in covariates\<close>, which changes the columns in place.\<close>

fun set_covariate_categories ::
  "(string \<times> string set) list \<Rightarrow> (string \<times> categorical) list \<Rightarrow>
   error + (string \<times> categorical) list" where
  "set_covariate_categories [] cols = Inr cols"
| "set_covariate_categories ((covariate, values) # covariates) cols =
     (case map_of cols covariate of
        None \<Rightarrow> Inl (KeyError covariate)
      | Some c \<Rightarrow>
          set_covariate_categories covariates
            (AList.update covariate (set_categories (sorted_list_of_set values) c) cols))"

fun join :: "string \<Rightarrow> string list \<Rightarrow> string" where
  "join sep [] = []"
| "join sep [x] = x"
| "join sep (x # y # ys) = x @ sep @ join sep (y # ys)"

text \<open>
  \<open>np.eye(n, dtype=int)[:, codes]\<close>: one column of the identity matrix for each code.
  numpy counts a negative index from the end, so the code \<open>-1\<close> selects the last
  column; an index outside \<open>-n \<dots> n - 1\<close> raises \<open>IndexError\<close>. The result is the
  list of the \<open>n\<close> rows.
\<close>

definition eye_columns :: "nat \<Rightarrow> int list \<Rightarrow> error + int list list" where
  "eye_columns n cs =
     (if list_ex (\<lambda>c. c < - int n \<or> int n \<le> c) cs then Inl IndexError
      else Inr (map (\<lambda>i. map (\<lambda>c. if (if c < 0 then c + int n else c) = int i
                                    then 1 else 0) cs) [0..<n]))"

text \<open>\<open>_encode\<close>: the rows of the matrix, indexed by the categories.\<close>

definition encode :: "categorical \<Rightarrow> error + (string \<times> int list) list" where
  "encode covariate =
     (case eye_columns (length (categories covariate)) (codes covariate) of
        Inl e \<Rightarrow> Inl e
      | Inr m \<Rightarrow> Inr (zip (categories covariate) m))"

fun encode_items ::
  "(string \<times> categorical) list \<Rightarrow> error + (string \<times> (string \<times> int list) list) list" where
  "encode_items [] = Inr []"
| "encode_items ((k, v) # kvs) =
     (case encode v of
        Inl e \<Rightarrow> Inl e
      | Inr m \<Rightarrow>
          (case encode_items kvs of
             Inl e \<Rightarrow> Inl e
           | Inr r \<Rightarrow> Inr ((k, m) # r)))"

text \<open>
  The result: a matrix with a number of columns and rows that are indexed by the pair
  of a covariate and a category (\<open>pd.concat(vs, keys=ks)\<close>). Unpacking \<open>zip(*[])\<close> into
  \<open>ks, vs\<close> raises \<open>ValueError\<close>.
\<close>

record encoding =
  ncols :: nat
  rows :: "((string \<times> string) \<times> int list) list"

definition concat_frames ::
  "(string \<times> (string \<times> int list) list) list \<Rightarrow> ((string \<times> string) \<times> int list) list" where
  "concat_frames kvs =
     concat (map (\<lambda>(k, m). map (\<lambda>(category, row). ((k, category), row)) m) kvs)"

definition restrict_design ::
  "(string \<times> string set) list option \<Rightarrow> (string \<times> categorical) list \<Rightarrow>
   error + (string \<times> categorical) list" where
  "restrict_design covariates cols =
     (case covariates of
        Some covs \<Rightarrow>
          (let missing_covariates = filter (\<lambda>x. x \<notin> set (map fst cols)) (map fst covs) in
           if missing_covariates \<noteq> [] then
             Inl (ValueError (''the following covariates are missing from the design: ''
                              @ join '', '' missing_covariates))
           else
             (case set_covariate_categories covs cols of
                Inl e \<Rightarrow> Inl e
              | Inr cols' \<Rightarrow> select_columns (map fst covs) cols'))
      | None \<Rightarrow>
          Inr (map (\<lambda>(covariate, c). (covariate, set_categories (sort (categories c)) c)) cols))"

definition design_matrix_from ::
  "string list frame \<Rightarrow> (string \<times> string set) list option \<Rightarrow> error + encoding" where
  "design_matrix_from design covariates =
     (if length (columns design) = 0 then Inr \<lparr>ncols = nrows design, rows = []\<rparr>
      else
        (case select_columns (sort (map fst (columns design))) (columns design) of
           Inl e \<Rightarrow> Inl e
         | Inr cols \<Rightarrow>
             (case restrict_design covariates
                     (map (\<lambda>(x, vals). (x, astype_category vals)) cols) of
                Inl e \<Rightarrow> Inl e
              | Inr cols' \<Rightarrow>
                  (case encode_items cols' of
                     Inl e \<Rightarrow> Inl e
                   | Inr kvs \<Rightarrow>
                       if kvs = [] then
                         Inl (ValueError ''not enough values to unpack (expected 2, got 0)'')
                       else Inr \<lparr>ncols = nrows design, rows = concat_frames kvs\<rparr>))))"

section \<open>\<open>Slide.__getitem__\<close>\<close>

text \<open>
  A label grid is the list of its rows of segment ids, \<open>0\<close> for the background. The
  count matrix has one row for each segment: the row of segment \<open>x\<close> is row \<open>x - 1\<close>.
  \<open>_get_patch\<close> and \<open>__len__\<close> are abstract in \<open>Slide\<close>: a slide carries them as fields.
  The image of a patch is carried along as it is.
\<close>

type_synonym label_grid = "nat list list"

record 'img slide =
  slide_image :: 'img
  slide_label :: label_grid
  slide_data :: "int list list"
  zero_data :: "nat list"
  get_patch :: "int \<Rightarrow> 'img \<times> label_grid"
  len :: nat

record 'img patch =
  patch_image :: 'img
  patch_label :: label_grid
  patch_data :: "int list list"
  patch_type :: string

text \<open>\<open>__init__\<close>: the ids without counts are \<open>0\<close> and every segment whose row sums to \<open>0\<close>.\<close>

definition zero_data_of :: "int list list \<Rightarrow> nat list" where
  "zero_data_of data = 0 # map Suc (filter (\<lambda>i. sum_list (data ! i) = 0) [0..<length data])"

definition Slide ::
  "int list list \<Rightarrow> 'img \<Rightarrow> label_grid \<Rightarrow> (int \<Rightarrow> 'img \<times> label_grid) \<Rightarrow> nat \<Rightarrow> 'img slide" where
  "Slide data img label patch_at n =
     \<lparr>slide_image = img, slide_label = label, slide_data = data,
      zero_data = zero_data_of data, get_patch = patch_at, len = n\<rparr>"

text \<open>
  \<open>scipy.ndimage.binary_fill_holes\<close>: the complement of the input is flooded from
  outside the grid, by dilations with the cross-shaped structuring element and border
  value 1 that only change cells of the complement, repeated until nothing changes.
  What the flood does not reach is the input and its holes. Every dilation that changes
  something sets a cell, so there are at most as many of them as the grid has cells.
\<close>

definition cell_or_border :: "bool list list \<Rightarrow> int \<Rightarrow> int \<Rightarrow> bool" where
  "cell_or_border a i j =
     (if 0 \<le> i \<and> i < int (length a) \<and> 0 \<le> j \<and> j < int (length (a ! nat i))
      then a ! nat i ! nat j else True)"

definition binary_dilation :: "bool list list \<Rightarrow> bool list list \<Rightarrow> bool list list" where
  "binary_dilation msk a =
     map (\<lambda>i. map (\<lambda>j.
            if msk ! i ! j then
              cell_or_border a (int i) (int j)
              \<or> cell_or_border a (int i - 1) (int j) \<or> cell_or_border a (int i + 1) (int j)
              \<or> cell_or_border a (int i) (int j - 1) \<or> cell_or_border a (int i) (int j + 1)
            else a ! i ! j)
          [0..<length (msk ! i)])
       [0..<length msk]"

fun binary_dilation_iterate :: "nat \<Rightarrow> bool list list \<Rightarrow> bool list list \<Rightarrow> bool list list" where
  "binary_dilation_iterate 0 msk a = a"
| "binary_dilation_iterate (Suc n) msk a =
     (let a' = binary_dilation msk a
      in if a' = a then a else binary_dilation_iterate n msk a')"

definition binary_fill_holes :: "bool list list \<Rightarrow> bool list list" where
  "binary_fill_holes input =
     (let msk = map (map Not) input;
          tmp = map (map (\<lambda>_. False)) input
      in map (map Not) (binary_dilation_iterate (length (concat input)) msk tmp))"

definition isin :: "label_grid \<Rightarrow> nat list \<Rightarrow> bool list list" where
  "isin label xs = map (map (\<lambda>x. x \<in> set xs)) label"

text \<open>
  \<open>label[np.invert(binary_fill_holes(np.isin(label, self._zero_data)))] = 0\<close>: a cell
  outside the filled mask becomes background.
\<close>

definition remove_partially_visible :: "nat list \<Rightarrow> label_grid \<Rightarrow> label_grid" where
  "remove_partially_visible zero label =
     map (\<lambda>(row, keep). map (\<lambda>(x, k). if k then x else 0) (zip row keep))
       (zip label (binary_fill_holes (isin label zero)))"

text \<open>\<open>self._data[[i, ...]]\<close>: the rows with these indices; an index past the end raises.\<close>

fun take_rows :: "int list list \<Rightarrow> nat list \<Rightarrow> error + int list list" where
  "take_rows data [] = Inr []"
| "take_rows data (i # is) =
     (if length data \<le> i then Inl IndexError
      else (case take_rows data is of
              Inl e \<Rightarrow> Inl e
            | Inr r \<Rightarrow> Inr (data ! i # r)))"

text \<open>\<open>np.searchsorted(labels, x)\<close>: the number of entries of the sorted list below \<open>x\<close>.\<close>

definition searchsorted :: "nat list \<Rightarrow> nat \<Rightarrow> nat" where
  "searchsorted labels x = length (takeWhile (\<lambda>y. y < x) labels)"

definition unique_labels :: "label_grid \<Rightarrow> nat list" where
  "unique_labels label = sort (remdups (concat label))"

text \<open>
  \<open>__getitem__\<close> calls itself when no segment is left in the patch, and every such call
  is a frame more on the interpreter's stack, which the recursion limit bounds
  (\<open>sys.getrecursionlimit()\<close>, 1000 unless it is set, less the frames of the callers).
  The first argument is the number of calls of \<open>__getitem__\<close> that may still be nested
  where the call is made: with none left the call raises \<open>RecursionError\<close>. The index of
  the next call is computed before the call, so a length of \<open>0\<close> raises first.
\<close>

fun getitem :: "nat \<Rightarrow> 'img slide \<Rightarrow> int \<Rightarrow> error + 'img patch" where
  "getitem 0 self idx = Inl RecursionError"
| "getitem (Suc depth) self idx =
     (let img = fst (get_patch self idx);
          label = remove_partially_visible (zero_data self) (snd (get_patch self idx));
          labels = unique_labels label
      in case take_rows (slide_data self) (map (\<lambda>x. x - 1) (filter (\<lambda>x. x > 0) labels)) of
           Inl e \<Rightarrow> Inl e
         | Inr data \<Rightarrow>
             if length data = 0 then
               (if len self = 0 then Inl ZeroDivisionError
                else getitem depth self ((idx + 1) mod int (len self)))
             else
               Inr \<lparr>patch_image = img,
                    patch_label = map (map (searchsorted labels)) label,
                    patch_data = data,
                    patch_type = ''ST''\<rparr>)"

text \<open>
  The segment ids that are left in the patch at an index, once the partially visible
  ones are removed: \<open>[x for x in labels if x > 0]\<close>.
\<close>

definition surviving_ids :: "'img slide \<Rightarrow> int \<Rightarrow> nat list" where
  "surviving_ids self idx =
     filter (\<lambda>x. x > 0)
       (unique_labels (remove_partially_visible (zero_data self) (snd (get_patch self idx))))"

text \<open>
  The index that \<open>__getitem__\<close> is at after a number of calls of itself: each goes on at
  \<open>(idx + 1) % len(self)\<close>.
\<close>

fun retry_index :: "'img slide \<Rightarrow> int \<Rightarrow> nat \<Rightarrow> int" where
  "retry_index self idx 0 = idx"
| "retry_index self idx (Suc k) = retry_index self ((idx + 1) mod int (len self)) k"

text \<open>
  A slide is not degenerate when its label grid holds a segment that is not the
  background and whose count row is not zero.
\<close>

definition has_counted_segment :: "'img slide \<Rightarrow> bool" where
  "has_counted_segment self =
     list_ex (\<lambda>x. x > 0 \<and> x \<notin> set (zero_data self)) (concat (slide_label self))"

text \<open>
  The category set in force for a covariate of an allowlist: the one listed with it, and
  the one listed last should a name be listed more than once, as every listing
  overwrites the categories of the column.
\<close>

definition allowed_categories :: "(string \<times> string set) list \<Rightarrow> string \<Rightarrow> string set" where
  "allowed_categories covs x =
     (case map_of (rev covs) x of None \<Rightarrow> {} | Some vals \<Rightarrow> vals)"

text \<open>The number of cells that a flood has reached.\<close>

definition true_cells :: "bool list list \<Rightarrow> nat" where
  "true_cells a = length (filter id (concat a))"

section \<open>Checkpoints: what restoring does\<close>

lemma load_optimizers_take_drop:
  "load_optimizers optimizers states =
     take (length optimizers) states @ drop (length states) optimizers"
  by (induction optimizers states rule: load_optimizers.induct) simp_all

text \<open>
  C1: restoring from the file that \<open>store_state\<close> wrote should return the stored
  iteration and install the stored states. It does not: \<open>store_state\<close> writes the model
  under \<open>'model'\<close>, \<open>restore_state\<close> reads \<open>'vae'\<close>. Whatever was stored, and whatever the
  live model and optimizers are, the restore raises \<open>KeyError\<close> and installs nothing.
\<close>

theorem restore_after_store_raises:
  "restore_state model' optimizers' file (store_state model optimizers N file fs) =
     ((model', optimizers'), Inl (KeyError ''vae''))"
  by (simp add: restore_state_def store_state_def)

text \<open>
  C2, as stated, fails: a checkpoint with one optimizer state, restored into two
  optimizers, raises nothing. The first optimizer takes the stored state, the second
  keeps its own, and the stored iteration is returned.
\<close>

theorem restore_state_counts_differ_counterexample:
  "restore_state (0::nat) [1::nat, 2] ''f''
     [''f'' \<mapsto> [''vae'' \<mapsto> StateDict 10,
                  ''optimizers'' \<mapsto> StateDicts [11],
                  ''iteration'' \<mapsto> Iteration 50000]]
   = ((10, [11, 2]), Inr (Iteration 50000))"
  by (simp add: restore_state_def)

text \<open>
  C2, amended: for a checkpoint that holds \<open>'vae'\<close>, \<open>'optimizers'\<close> and \<open>'iteration'\<close>,
  and any list of optimizers, of the same length as the stored states or not,
  \<open>restore_state\<close> does not fail. It installs the model state, gives the first optimizers
  the stored states, one for one as far as both lists go, leaves the optimizers beyond
  that as they were, and returns the stored iteration.
\<close>

theorem restore_state_pairwise:
  assumes "fs file = Some state"
    and "state ''vae'' = Some (StateDict model')"
    and "state ''optimizers'' = Some (StateDicts states)"
    and "state ''iteration'' = Some iteration"
  shows "restore_state model optimizers file fs =
     ((model', take (length optimizers) states @ drop (length states) optimizers),
      Inr iteration)"
  using assms by (simp add: restore_state_def load_optimizers_take_drop)

text \<open>The amended C2 at the checkpoint above: one stored state, two optimizers.\<close>

theorem restore_state_pairwise_witness:
  "restore_state (0::nat) [1::nat, 2] ''f''
     [''f'' \<mapsto> [''vae'' \<mapsto> StateDict 10,
                  ''optimizers'' \<mapsto> StateDicts [11],
                  ''iteration'' \<mapsto> Iteration 50000]]
   = ((10, take (length [1::nat, 2]) [11] @ drop (length [11::nat]) [1, 2]),
      Inr (Iteration 50000))"
  using restore_state_pairwise
    [of "[''f'' \<mapsto> [''vae'' \<mapsto> StateDict 10, ''optimizers'' \<mapsto> StateDicts [11],
                      ''iteration'' \<mapsto> Iteration 50000]]"
        "''f''"
        "[''vae'' \<mapsto> StateDict 10, ''optimizers'' \<mapsto> StateDicts [11],
          ''iteration'' \<mapsto> Iteration 50000]"
        "10::nat" "[11::nat]" "Iteration 50000" "0::nat" "[1::nat, 2]"]
  by simp

section \<open>The interrupt handler\<close>

lemma with_interrupt_handler_returns:
  "func (p\<lparr>sigint := handler\<rparr>) = (Inr r, p2) \<Longrightarrow>
   with_interrupt_handler handler func p = (Inr (), p2\<lparr>sigint := sigint p\<rparr>)"
  by (simp add: with_interrupt_handler_def)

lemma with_interrupt_handler_raises:
  "func (p\<lparr>sigint := handler\<rparr>) = (Inl e, p2) \<Longrightarrow>
   with_interrupt_handler handler func p = (Inl e, p2)"
  by (simp add: with_interrupt_handler_def)

text \<open>
  C4: the previous handler should be back after the wrapped call on every path. When
  \<open>func\<close> raises it is not: with the handler \<open>default\<close> installed, a wrapped function
  that raises leaves the wrapper with the handler \<open>custom\<close> still installed.
\<close>

theorem with_interrupt_handler_raise_keeps_custom:
  "with_interrupt_handler ''custom'' (\<lambda>p. (Inl RuntimeError :: error + unit, p))
     \<lparr>sigint = ''default'', rest = ()\<rparr>
   = (Inl RuntimeError, \<lparr>sigint = ''custom'', rest = ()\<rparr>)"
  by (simp add: with_interrupt_handler_def)

section \<open>\<open>zip_dicts\<close> and its keys\<close>

lemma append_items_no_value_error: "append_items d kvs \<noteq> Inl (ValueError msg)"
  by (induction d kvs rule: append_items.induct) (auto split: option.splits)

lemma zip_loop_no_value_error: "zip_loop d ds \<noteq> Inl (ValueError msg)"
  by (induction d ds rule: zip_loop.induct)
    (auto split: sum.splits simp: append_items_no_value_error)

lemma zip_dicts_no_value_error: "zip_dicts ds \<noteq> Inl (ValueError msg)"
  by (cases ds) (simp_all add: zip_dicts_def zip_loop_no_value_error del: zip_loop.simps)

lemma update_present:
  "distinct (map fst d) \<Longrightarrow> k \<in> fst ` set d \<Longrightarrow>
   AList.update k x d = map (\<lambda>(k', v'). if k' = k then (k', x) else (k', v')) d"
proof (induction d)
  case Nil
  then show ?case by simp
next
  case (Cons p d)
  obtain k0 v0 where p: "p = (k0, v0)" by (cases p)
  show ?case
  proof (cases "k0 = k")
    case True
    with Cons.prems p have "k \<notin> fst ` set d" by auto
    then have "map (\<lambda>(k', v'). if k' = k then (k', x) else (k', v')) d = d"
      by (induction d) auto
    with True p show ?thesis by simp
  next
    case False
    with Cons p show ?thesis by auto
  qed
qed

lemma append_items_closed:
  assumes "distinct (map fst d)" and "distinct (map fst kvs)"
    and "fst ` set kvs \<subseteq> fst ` set d"
  shows "append_items d kvs =
         Inr (map (\<lambda>(k, vs). (k, vs @ (case map_of kvs k of None \<Rightarrow> [] | Some v \<Rightarrow> [v]))) d)"
  using assms
proof (induction d kvs rule: append_items.induct)
  case (1 d)
  then show ?case by (simp add: case_prod_unfold)
next
  case (2 d k v kvs)
  from "2.prems" obtain vs where vs: "map_of d k = Some vs"
    by (metis (no_types, opaque_lifting) fst_conv image_subset_iff list.set_intros(1)
        map_of_eq_None_iff not_Some_eq)
  let ?d1 = "AList.update k (vs @ [v]) d"
  have d1: "?d1 = map (\<lambda>(k', v'). if k' = k then (k', vs @ [v]) else (k', v')) d"
    using "2.prems" by (intro update_present) auto
  have keys: "map fst ?d1 = map fst d"
    unfolding d1 by (induction d) auto
  have notin: "map_of kvs k = None"
    using "2.prems"(2) by (simp add: map_of_eq_None_iff)
  have "append_items ?d1 kvs =
         Inr (map (\<lambda>(k, vs). (k, vs @ (case map_of kvs k of None \<Rightarrow> [] | Some v \<Rightarrow> [v]))) ?d1)"
  proof (rule "2.IH"[OF vs])
    show "distinct (map fst ?d1)" using "2.prems"(1) keys by simp
    show "distinct (map fst kvs)" using "2.prems"(2) by simp
    have "fst ` set ?d1 = fst ` set d" using keys by (metis set_map)
    with "2.prems"(3) show "fst ` set kvs \<subseteq> fst ` set ?d1" by auto
  qed
  also have "map (\<lambda>(k, vs). (k, vs @ (case map_of kvs k of None \<Rightarrow> [] | Some v \<Rightarrow> [v]))) ?d1 =
      map (\<lambda>(k', vs). (k', vs @ (case map_of ((k, v) # kvs) k' of None \<Rightarrow> [] | Some v \<Rightarrow> [v]))) d"
  proof -
    have "(\<lambda>(k, vs). (k, vs @ (case map_of kvs k of None \<Rightarrow> [] | Some v \<Rightarrow> [v])))
            ((\<lambda>(k', v'). if k' = k then (k', vs @ [v]) else (k', v')) p) =
          (\<lambda>(k', vs). (k', vs @ (case map_of ((k, v) # kvs) k' of None \<Rightarrow> [] | Some v \<Rightarrow> [v]))) p"
      if "p \<in> set d" for p
    proof (cases p)
      case (Pair k' vs')
      show ?thesis
      proof (cases "k' = k")
        case True
        with that Pair "2.prems"(1) vs have "vs' = vs"
          by (metis map_of_is_SomeI option.inject)
        with True Pair notin show ?thesis by simp
      next
        case False
        with Pair show ?thesis by simp
      qed
    qed
    then show ?thesis unfolding d1 by simp
  qed
  finally show ?case using vs by simp
qed

lemma zip_loop_closed:
  assumes "distinct (map fst d)"
    and "\<forall>d' \<in> set ds. distinct (map fst d') \<and> fst ` set d' \<subseteq> fst ` set d"
  shows "zip_loop d ds =
         Inr (map (\<lambda>(k, vs). (k, vs @ concat (map (\<lambda>d'. case map_of d' k of None \<Rightarrow> []
                                                          | Some v \<Rightarrow> [v]) ds))) d)"
  using assms
proof (induction ds arbitrary: d)
  case Nil
  then show ?case by (simp add: case_prod_unfold)
next
  case (Cons d' ds)
  let ?d1 = "map (\<lambda>(k, vs). (k, vs @ (case map_of d' k of None \<Rightarrow> [] | Some v \<Rightarrow> [v]))) d"
  have step: "append_items d d' = Inr ?d1"
    using Cons.prems by (intro append_items_closed) auto
  have keys: "map fst ?d1 = map fst d"
    by (induction d) auto
  then have keyset: "fst ` set ?d1 = fst ` set d"
    by (metis set_map)
  have "zip_loop ?d1 ds =
         Inr (map (\<lambda>(k, vs). (k, vs @ concat (map (\<lambda>d'. case map_of d' k of None \<Rightarrow> []
                                                          | Some v \<Rightarrow> [v]) ds))) ?d1)"
  proof (rule Cons.IH)
    show "distinct (map fst ?d1)" using Cons.prems(1) by (simp only: keys)
    show "\<forall>d' \<in> set ds. distinct (map fst d') \<and> fst ` set d' \<subseteq> fst ` set ?d1"
      using Cons.prems(2) keyset by simp
  qed
  with step show ?case by (simp add: case_prod_unfold comp_def)
qed

lemma concat_singletons:
  "(\<And>x. x \<in> set xs \<Longrightarrow> f x = [g x]) \<Longrightarrow> concat (map f xs) = map g xs"
  by (induction xs) auto

text \<open>
  Dicts with the same keys: the result has the keys of the first dict in its order, each
  with the list of its values in the order of the dicts.
\<close>

lemma zip_dicts_same_keys:
  assumes "\<forall>d \<in> set (d0 # ds). distinct (map fst d) \<and> set (map fst d) = set (map fst d0)"
  shows "zip_dicts (d0 # ds) =
         Inr (map (\<lambda>k. (k, map (\<lambda>d. the (map_of d k)) (d0 # ds))) (map fst d0))"
proof -
  let ?d = "map (\<lambda>k. (k, [])) (map fst d0)"
  have keys: "map fst ?d = map fst d0" by (simp add: comp_def)
  have "zip_loop ?d (d0 # ds) =
         Inr (map (\<lambda>(k, vs). (k, vs @ concat (map (\<lambda>d'. case map_of d' k of None \<Rightarrow> []
                                                          | Some v \<Rightarrow> [v]) (d0 # ds)))) ?d)"
  proof (rule zip_loop_closed)
    have "distinct (map fst d0)" using assms by simp
    then show "distinct (map fst ?d)" by (simp only: keys)
    have "fst ` set ?d = set (map fst d0)" using keys by (metis set_map)
    then show "\<forall>d' \<in> set (d0 # ds). distinct (map fst d') \<and> fst ` set d' \<subseteq> fst ` set ?d"
      using assms by auto
  qed
  moreover have "concat (map (\<lambda>d'. case map_of d' k of None \<Rightarrow> [] | Some v \<Rightarrow> [v]) (d0 # ds)) =
        map (\<lambda>d. the (map_of d k)) (d0 # ds)" if "k \<in> set (map fst d0)" for k
  proof -
    have "(case map_of d' k of None \<Rightarrow> [] | Some v \<Rightarrow> [v]) = [the (map_of d' k)]"
      if "d' \<in> set (d0 # ds)" for d'
    proof -
      from assms that have "set (map fst d') = set (map fst d0)" by blast
      with \<open>k \<in> set (map fst d0)\<close> have "k \<in> fst ` set d'" by (metis set_map)
      then obtain v where "map_of d' k = Some v"
        by (metis map_of_eq_None_iff not_Some_eq)
      then show ?thesis by simp
    qed
    then show ?thesis by (rule concat_singletons)
  qed
  ultimately show ?thesis
    by (simp add: zip_dicts_def comp_def del: zip_loop.simps list.map map_of.simps)
qed

text \<open>
  C5: dicts whose key sets differ should make \<open>zip_dicts\<close> fail with the \<open>ValueError\<close>
  'dict keys are inconsistent'. They do not: a key that the first dict lacks raises
  \<open>KeyError\<close>, and a key that a later dict lacks goes unnoticed, the lists of the result
  then being of different lengths. (The other half of C5, on dicts with the same keys,
  holds: \<open>zip_dicts_same_keys\<close>.)
\<close>

theorem zip_dicts_inconsistent_keys:
  "zip_dicts [[(''a'', 1::int)], [(''b'', 2)]] = Inl (KeyError ''b'') \<and>
   zip_dicts [[(''a'', 1::int), (''b'', 2)], [(''a'', 3)]] =
     Inr [(''a'', [1, 3]), (''b'', [2])]"
  by (simp add: zip_dicts_def)

section \<open>\<open>to_device\<close> on other values\<close>



section \<open>The design matrix\<close>

lemma select_columns_Inr:
  "select_columns xs cols = Inr r \<Longrightarrow> r = map (\<lambda>x. (x, the (map_of cols x))) xs"
  by (induction xs arbitrary: r) (auto split: option.splits sum.splits)

lemma set_covariate_categories_other:
  "set_covariate_categories covs cols = Inr cols' \<Longrightarrow> x \<notin> fst ` set covs \<Longrightarrow>
   map_of cols' x = map_of cols x"
proof (induction covs cols arbitrary: cols' rule: set_covariate_categories.induct)
  case (1 cols)
  then show ?case by simp
next
  case (2 covariate vals covariates cols)
  then show ?case
    by (auto split: option.splits simp: update_conv')
qed

lemma set_covariate_categories_last:
  "set_covariate_categories covs cols = Inr cols' \<Longrightarrow> map_of (rev covs) x = Some listed \<Longrightarrow>
   \<exists>c. map_of cols' x = Some c \<and> categories c = sorted_list_of_set listed"
proof (induction covs cols arbitrary: cols' rule: set_covariate_categories.induct)
  case (1 cols)
  then show ?case by simp
next
  case (2 covariate vals covariates cols)
  from "2.prems"(1) obtain c0 where c0: "map_of cols covariate = Some c0"
    and rest: "set_covariate_categories covariates
        (AList.update covariate (set_categories (sorted_list_of_set vals) c0) cols) = Inr cols'"
    by (auto split: option.splits)
  show ?case
  proof (cases "map_of (rev covariates) x")
    case (Some v)
    with "2.prems"(2) have "v = listed" by (simp add: map_add_def)
    with Some "2.IH"[OF c0 rest] show ?thesis by simp
  next
    case None
    with "2.prems"(2) have x: "x = covariate" "listed = vals"
      by (auto simp: map_add_def split: if_splits)
    from None have "x \<notin> fst ` set covariates"
      by (metis map_of_eq_None_iff set_rev)
    from set_covariate_categories_other[OF rest this]
    show ?thesis using x by (simp add: update_conv' set_categories_def)
  qed
qed

lemma eye_columns_length: "eye_columns n cs = Inr m \<Longrightarrow> length m = n"
  by (auto simp: eye_columns_def split: if_splits)

lemma encode_index: "encode c = Inr m \<Longrightarrow> map fst m = categories c"
  by (auto simp: encode_def split: sum.splits dest!: eye_columns_length)

lemma encode_items_index:
  "encode_items kvs = Inr r \<Longrightarrow>
   map fst (concat_frames r) = concat (map (\<lambda>(k, c). map (Pair k) (categories c)) kvs)"
proof (induction kvs arbitrary: r rule: encode_items.induct)
  case 1
  then show ?case by (simp add: concat_frames_def)
next
  case (2 k v kvs)
  from "2.prems" obtain m r' where m: "encode v = Inr m" and r': "encode_items kvs = Inr r'"
    and r: "r = (k, m) # r'"
    by (auto split: sum.splits)
  have "map fst (map (\<lambda>(category, row). ((k, category), row)) m) = map (Pair k) (map fst m)"
    by (induction m) auto
  with "2.IH"[OF m r'] encode_index[OF m] show ?case
    by (simp add: r concat_frames_def)
qed

lemma restrict_design_categories:
  assumes "restrict_design (Some covs) cols = Inr cols'"
  shows "concat (map (\<lambda>(k, c). map (Pair k) (categories c)) cols') =
         concat (map (\<lambda>x. map (Pair x) (sorted_list_of_set (allowed_categories covs x)))
                   (map fst covs))"
proof -
  from assms obtain cols1 where
    c1: "set_covariate_categories covs cols = Inr cols1"
    and sel: "select_columns (map fst covs) cols1 = Inr cols'"
    by (auto simp: restrict_design_def Let_def split: if_splits sum.splits)
  have cols': "cols' = map (\<lambda>x. (x, the (map_of cols1 x))) (map fst covs)"
    using select_columns_Inr[OF sel] .
  have "categories (the (map_of cols1 x)) = sorted_list_of_set (allowed_categories covs x)"
    if "x \<in> fst ` set covs" for x
  proof -
    from that obtain vals where "map_of (rev covs) x = Some vals"
      by (metis map_of_eq_None_iff not_Some_eq set_rev)
    with set_covariate_categories_last[OF c1 this] show ?thesis
      by (auto simp: allowed_categories_def)
  qed
  then show ?thesis
    unfolding cols' by (auto simp: comp_def intro!: arg_cong[where f = concat])
qed

lemma allowed_categories_distinct:
  assumes "distinct (map fst covs)"
  shows "map (\<lambda>x. map (Pair x) (sorted_list_of_set (allowed_categories covs x))) (map fst covs) =
         map (\<lambda>(x, vals). map (Pair x) (sorted_list_of_set vals)) covs"
proof -
  have "allowed_categories covs x = vals" if "(x, vals) \<in> set covs" for x vals
  proof -
    from assms have "distinct (map fst (rev covs))" by (simp add: rev_map[symmetric])
    with that have "map_of (rev covs) x = Some vals" by simp
    then show ?thesis by (simp add: allowed_categories_def)
  qed
  then show ?thesis by (auto simp: comp_def)
qed

lemma category_code_outside: "v \<notin> set cs \<Longrightarrow> category_code cs v = - 1"
  by (induction cs) (auto simp: Let_def)

lemma eye_columns_last:
  assumes "eye_columns n cs = Inr m" and "j < length cs" and "cs ! j = - 1" and "i < n"
  shows "m ! i ! j = (if i = n - 1 then 1 else 0)"
  using assms by (auto simp: eye_columns_def split: if_splits)

text \<open>
  C3: a sample whose value is outside the allowed categories should be encoded as a
  column of zeros. It is not: the value loses its category, its code is \<open>-1\<close>
  (\<open>category_code_outside\<close>), and column \<open>-1\<close> of the identity matrix is the last one
  (\<open>eye_columns_last\<close>). With the categories \<open>a\<close> and \<open>b\<close> allowed, the sample with the
  value \<open>z\<close> is encoded as one of category \<open>b\<close>.
\<close>

theorem design_matrix_from_outside_allowlist:
  "design_matrix_from \<lparr>nrows = 2, columns = [(''c'', [''a'', ''z''])]\<rparr>
     (Some [(''c'', {''a'', ''b''})])
   = Inr \<lparr>ncols = 2, rows = [((''c'', ''a''), [1, 0]), ((''c'', ''b''), [0, 1])]\<rparr>"
  by code_simp

text \<open>
  C8: with an allowlist that names only covariates of the table, the rows of the
  returned encoding are, covariate after covariate as listed, the allowed categories of
  the covariate in sorted order, and so as many as the allowed set has
  (\<open>length_sorted_list_of_set\<close>). Nothing of the table is in the right-hand side: the
  order in which its values appear plays no role. (The first part says what the rows are
  for any allowlist, also one that lists a name twice.)
\<close>

theorem design_matrix_from_allowlist_rows:
  assumes "design_matrix_from design (Some covs) = Inr enc"
    and "set (map fst covs) \<subseteq> set (map fst (columns design))"
  shows "map fst (rows enc) =
           concat (map (\<lambda>x. map (Pair x) (sorted_list_of_set (allowed_categories covs x)))
                     (map fst covs)) \<and>
         (distinct (map fst covs) \<longrightarrow>
          map fst (rows enc) =
            concat (map (\<lambda>(x, vals). map (Pair x) (sorted_list_of_set vals)) covs))"
proof -
  have first: "map fst (rows enc) =
           concat (map (\<lambda>x. map (Pair x) (sorted_list_of_set (allowed_categories covs x)))
                     (map fst covs))"
  proof (cases "columns design = []")
    case True
    with assms show ?thesis by (auto simp: design_matrix_from_def)
  next
    case False
    with assms(1) obtain cols cols' kvs where
      "restrict_design (Some covs) cols = Inr cols'"
      and "encode_items cols' = Inr kvs"
      and "rows enc = concat_frames kvs"
      by (auto simp: design_matrix_from_def split: sum.splits if_splits)
    then show ?thesis
      using encode_items_index[of cols' kvs] restrict_design_categories[of covs cols cols']
      by simp
  qed
  show ?thesis
  proof (intro conjI impI)
    show "map fst (rows enc) =
           concat (map (\<lambda>x. map (Pair x) (sorted_list_of_set (allowed_categories covs x)))
                     (map fst covs))"
      by (rule first)
  next
    assume "distinct (map fst covs)"
    then show "map fst (rows enc) =
            concat (map (\<lambda>(x, vals). map (Pair x) (sorted_list_of_set vals)) covs)"
      using first by (simp only: allowed_categories_distinct)
  qed
qed

text \<open>
  C8 at a table whose covariate \<open>c\<close> shows \<open>b\<close> before \<open>a\<close> and never \<open>d\<close>: the rows are
  \<open>a\<close>, \<open>b\<close>, \<open>d\<close>.
\<close>

theorem design_matrix_from_allowlist_rows_witness:
  "design_matrix_from
     \<lparr>nrows = 3, columns = [(''c'', [''b'', ''a'', ''b'']), (''a'', [''x'', ''y'', ''x''])]\<rparr>
     (Some [(''c'', {''b'', ''a'', ''d''})])
   = Inr \<lparr>ncols = 3,
          rows = [((''c'', ''a''), [0, 1, 0]), ((''c'', ''b''), [1, 0, 1]),
                  ((''c'', ''d''), [0, 0, 0])]\<rparr> \<and>
   map fst (rows \<lparr>ncols = 3,
          rows = [((''c'', ''a''), [0, 1, 0]), ((''c'', ''b''), [1, 0, 1]),
                  ((''c'', ''d''), [0::int, 0, 0])]\<rparr>)
   = concat (map (\<lambda>(x, vals). map (Pair x) (sorted_list_of_set vals))
               [(''c'', {''b'', ''a'', ''d''})])"
proof -
  have run: "design_matrix_from
     \<lparr>nrows = 3, columns = [(''c'', [''b'', ''a'', ''b'']), (''a'', [''x'', ''y'', ''x''])]\<rparr>
     (Some [(''c'', {''b'', ''a'', ''d''})])
   = Inr \<lparr>ncols = 3,
          rows = [((''c'', ''a''), [0, 1, 0]), ((''c'', ''b''), [1, 0, 1]),
                  ((''c'', ''d''), [0, 0, 0])]\<rparr>"
    by code_simp
  have names: "set (map fst [(''c'', {''b'', ''a'', ''d''})]) \<subseteq>
     set (map fst (columns
       \<lparr>nrows = 3, columns = [(''c'', [''b'', ''a'', ''b'']), (''a'', [''x'', ''y'', ''x''])]\<rparr>))"
    by simp
  have once: "distinct (map fst [(''c'', {''b'', ''a'', ''d''})])"
    by simp
  from design_matrix_from_allowlist_rows[OF run names] once
  have "map fst (rows \<lparr>ncols = 3,
          rows = [((''c'', ''a''), [0, 1, 0]), ((''c'', ''b''), [1, 0, 1]),
                  ((''c'', ''d''), [0::int, 0, 0])]\<rparr>)
   = concat (map (\<lambda>(x, vals). map (Pair x) (sorted_list_of_set vals))
               [(''c'', {''b'', ''a'', ''d''})])"
    by blast
  with run show ?thesis by blast
qed

text \<open>
  C9: a table without covariate columns gives, whatever the allowlist, a matrix without
  rows and with one column for each sample, and no error.
\<close>

theorem design_matrix_from_no_columns:
  assumes "columns design = []"
  shows "design_matrix_from design covariates = Inr \<lparr>ncols = nrows design, rows = []\<rparr>"
  using assms by (simp add: design_matrix_from_def)

text \<open>C9 at a table of four samples.\<close>

theorem design_matrix_from_no_columns_witness:
  "columns \<lparr>nrows = 4, columns = [] :: (string \<times> string list) list\<rparr> = [] \<and>
   design_matrix_from \<lparr>nrows = 4, columns = []\<rparr> None = Inr \<lparr>ncols = 4, rows = []\<rparr>"
  using design_matrix_from_no_columns[of "\<lparr>nrows = 4, columns = []\<rparr>" None] by simp

section \<open>Filling holes\<close>

lemma row_le_count:
  "list_all2 (\<longrightarrow>) xs ys \<Longrightarrow>
   length (filter id xs) \<le> length (filter id ys) \<and>
   (xs \<noteq> ys \<longrightarrow> length (filter id xs) < length (filter id ys))"
  by (induction xs ys rule: list_all2_induct) auto

lemma grid_le_count:
  "list_all2 (list_all2 (\<longrightarrow>)) a b \<Longrightarrow>
   true_cells a \<le> true_cells b \<and> (a \<noteq> b \<longrightarrow> true_cells a < true_cells b)"
proof (induction a b rule: list_all2_induct)
  case Nil
  then show ?case by (simp add: true_cells_def)
next
  case (Cons x xs y ys)
  from row_le_count[OF Cons.hyps(1)] Cons.IH show ?case
    by (auto simp: true_cells_def)
qed

lemma binary_dilation_shape: "map length (binary_dilation msk a) = map length msk"
  by (auto simp: binary_dilation_def intro: nth_equalityI)

lemma binary_dilation_grows:
  assumes "map length a = map length msk"
  shows "list_all2 (list_all2 (\<longrightarrow>)) a (binary_dilation msk a)"
proof -
  have len: "length a = length msk"
    using assms by (metis length_map)
  have row: "length (a ! i) = length (msk ! i)" if "i < length msk" for i
    using assms that len by (metis nth_map)
  show ?thesis
    unfolding list_all2_conv_all_nth
    using len row by (auto simp: binary_dilation_def cell_or_border_def)
qed

lemma true_cells_le: "true_cells a \<le> length (concat a)"
  by (simp add: true_cells_def)

lemma length_concat_shape: "map length a = map length b \<Longrightarrow> length (concat a) = length (concat b)"
  by (simp add: length_concat)

lemma binary_dilation_iterate_stable:
  assumes "map length a = map length msk"
    and "length (concat msk) \<le> n + true_cells a"
  shows "binary_dilation msk (binary_dilation_iterate n msk a) =
         binary_dilation_iterate n msk a"
  using assms
proof (induction n arbitrary: a)
  case 0
  let ?a' = "binary_dilation msk a"
  have "true_cells ?a' \<le> length (concat msk)"
    using true_cells_le[of ?a'] length_concat_shape[OF binary_dilation_shape[of msk a]] by simp
  with "0.prems"(2) have "\<not> true_cells a < true_cells ?a'" by linarith
  with grid_le_count[OF binary_dilation_grows[OF "0.prems"(1)]] have "?a' = a" by metis
  then show ?case by simp
next
  case (Suc n)
  let ?a' = "binary_dilation msk a"
  show ?case
  proof (cases "?a' = a")
    case True
    then show ?thesis by (simp add: Let_def)
  next
    case False
    with grid_le_count[OF binary_dilation_grows[OF Suc.prems(1)]]
    have "true_cells a < true_cells ?a'" by metis
    with Suc.prems(2) have "length (concat msk) \<le> n + true_cells ?a'" by simp
    from Suc.IH[OF binary_dilation_shape this] False show ?thesis
      by (simp add: Let_def)
  qed
qed

text \<open>
  The flood of \<open>binary_fill_holes\<close> has come to rest after as many dilations as the grid
  has cells: one more dilation changes nothing.
\<close>

lemma binary_fill_holes_flood_stable:
  "binary_dilation (map (map Not) input)
     (binary_dilation_iterate (length (concat input)) (map (map Not) input)
        (map (map (\<lambda>_. False)) input)) =
   binary_dilation_iterate (length (concat input)) (map (map Not) input)
     (map (map (\<lambda>_. False)) input)"
proof (rule binary_dilation_iterate_stable)
  show "map length (map (map (\<lambda>_. False)) input) = map length (map (map Not) input)"
    by simp
  have "length (concat (map (map Not) input)) = length (concat input)"
    by (simp add: length_concat comp_def)
  then show "length (concat (map (map Not) input))
     \<le> length (concat input) + true_cells (map (map (\<lambda>_. False)) input)"
    by simp
qed

section \<open>Patches of a slide\<close>

lemma take_rows_Nil_iff: "take_rows data is = Inr [] \<longleftrightarrow> is = []"
  by (cases "is") (auto split: sum.splits)

lemma take_rows_error: "take_rows data is = Inl e \<Longrightarrow> e = IndexError"
  by (induction "is" arbitrary: e) (auto split: if_splits sum.splits)

lemma take_rows_in_range:
  "list_all (\<lambda>i. i < length data) is \<Longrightarrow> \<exists>r. take_rows data is = Inr r"
  by (induction "is") auto

text \<open>No segment left at an index: the call goes on at the next index, one frame deeper.\<close>

lemma getitem_retry:
  assumes "surviving_ids self idx = []" and "len self \<noteq> 0"
  shows "getitem (Suc depth) self idx = getitem depth self ((idx + 1) mod int (len self))"
  using assms by (simp add: surviving_ids_def Let_def)

text \<open>A segment left at an index, and a count row for every id left: the call returns.\<close>

lemma getitem_stop:
  assumes "surviving_ids self idx \<noteq> []"
    and "list_all (\<lambda>x. x \<le> length (slide_data self)) (surviving_ids self idx)"
  shows "\<exists>p. getitem (Suc depth) self idx = Inr p \<and> patch_data p \<noteq> []"
proof -
  have "x - 1 < length (slide_data self)" if "x \<in> set (surviving_ids self idx)" for x
  proof -
    from that have "0 < x" by (simp add: surviving_ids_def)
    moreover from that assms(2) have "x \<le> length (slide_data self)"
      by (simp add: list_all_iff)
    ultimately show ?thesis by arith
  qed
  then have "list_all (\<lambda>i. i < length (slide_data self))
               (map (\<lambda>x. x - 1) (surviving_ids self idx))"
    by (simp add: list_all_iff)
  from take_rows_in_range[OF this] obtain data where
    data: "take_rows (slide_data self) (map (\<lambda>x. x - 1) (surviving_ids self idx)) = Inr data"
    by blast
  with assms(1) have "data \<noteq> []"
    using take_rows_Nil_iff[of "slide_data self" "map (\<lambda>x. x - 1) (surviving_ids self idx)"]
    by auto
  with data show ?thesis
    by (simp add: surviving_ids_def Let_def)
qed

text \<open>No segment left at any index: the calls go on until no frame is left.\<close>

lemma getitem_exhausts:
  assumes "\<And>idx. surviving_ids self idx = []" and "len self \<noteq> 0"
  shows "getitem depth self idx = Inl RecursionError"
proof (induction depth arbitrary: idx)
  case 0
  show ?case by simp
next
  case (Suc depth)
  from getitem_retry[OF assms(1)[of idx] assms(2), of depth] Suc.IH
  show ?case by simp
qed

text \<open>
  C6, as stated, fails. The slide below has one segment, with the counts \<open>5\<close> and \<open>0\<close>,
  in the upper row of a grid of two rows, and one patch, the whole grid. The segment
  touches the border of the patch, so it is removed as partially visible, nothing is
  left, and the call goes on at index \<open>(0 + 1) mod 1 = 0\<close>, again and again: no patch is
  returned, the call ends with \<open>RecursionError\<close>, here with 1000 frames and as well with
  any other number.
\<close>

theorem getitem_never_returns_counterexample:
  "has_counted_segment
     (Slide [[5, 0]] () [[1, 1], [0, 0]] (\<lambda>idx. ((), [[1, 1], [0, 0]])) 1) \<and>
   getitem 1000 (Slide [[5, 0]] () [[1, 1], [0, 0]] (\<lambda>idx. ((), [[1, 1], [0, 0]])) 1) 0 =
     Inl RecursionError"
proof -
  let ?s = "Slide [[5, 0]] () [[1, 1], [0, 0]] (\<lambda>idx. ((), [[1, 1], [0, 0]])) 1"
  have ids: "surviving_ids ?s idx = []" for idx
    unfolding surviving_ids_def by code_simp
  have "len ?s \<noteq> 0" by (simp add: Slide_def)
  with ids have "getitem 1000 ?s 0 = Inl RecursionError" by (rule getitem_exhausts)
  moreover have "has_counted_segment ?s" by code_simp
  ultimately show ?thesis by simp
qed

text \<open>
  C6, amended: for every slide with \<open>length() > 0\<close> in which every id that survives in a
  patch has a row in the count matrix, and every index \<open>idx\<close>: if, going from \<open>idx\<close> on
  by \<open>(idx + 1) mod length()\<close>, the index reached after \<open>k\<close> steps has a patch in which
  a non-zero id survives the removal of the partially visible labels, and \<open>k\<close> is below
  the number of nested calls that the recursion limit still allows, then
  \<open>__getitem__(idx)\<close> terminates, recursing on \<open>(idx + 1) mod length()\<close> whenever zero
  non-zero ids survive the crop, and returns a patch that has at least one count row.
\<close>

theorem getitem_returns:
  assumes "k < depth"
    and "surviving_ids self (retry_index self idx k) \<noteq> []"
    and "0 < len self"
    and "\<And>i. list_all (\<lambda>x. x \<le> length (slide_data self)) (surviving_ids self i)"
  shows "\<exists>p. getitem depth self idx = Inr p \<and> patch_data p \<noteq> []"
  using assms(1,2)
proof (induction k arbitrary: idx depth)
  case 0
  then obtain d where d: "depth = Suc d" by (cases depth) auto
  from 0 have "surviving_ids self idx \<noteq> []" by simp
  from getitem_stop[OF this assms(4)[of idx], of d] show ?case
    unfolding d .
next
  case (Suc k)
  from Suc.prems(1) obtain d where d: "depth = Suc d" "k < d" by (cases depth) auto
  show ?case
  proof (cases "surviving_ids self idx = []")
    case False
    from getitem_stop[OF this assms(4)[of idx], of d] show ?thesis
      unfolding d(1) .
  next
    case True
    with assms(3) have "getitem (Suc d) self idx = getitem d self ((idx + 1) mod int (len self))"
      by (intro getitem_retry) simp_all
    moreover from Suc.prems(2)
    have "surviving_ids self (retry_index self ((idx + 1) mod int (len self)) k) \<noteq> []"
      by simp
    from Suc.IH[OF d(2) this]
    have "\<exists>p. getitem d self ((idx + 1) mod int (len self)) = Inr p \<and> patch_data p \<noteq> []" .
    ultimately show ?thesis unfolding d(1) by simp
  qed
qed

text \<open>
  The amended C6 at a slide of two patches: nothing but background at index \<open>0\<close>, the
  segment inside the patch at index \<open>1\<close>. Asked for index \<open>0\<close> with two frames left, the
  call returns the patch of index \<open>1\<close>, with the one count row of the segment.
\<close>

theorem getitem_returns_witness:
  "(1::nat) < 2 \<and>
   surviving_ids (Slide [[5, 0]] () [[0, 0, 0], [0, 1, 0], [0, 0, 0]]
       (\<lambda>idx. if idx = 1 then ((), [[0, 0, 0], [0, 1, 0], [0, 0, 0]])
               else ((), [[0, 0], [0, 0]])) 2)
     (retry_index (Slide [[5, 0]] () [[0, 0, 0], [0, 1, 0], [0, 0, 0]]
       (\<lambda>idx. if idx = 1 then ((), [[0, 0, 0], [0, 1, 0], [0, 0, 0]])
               else ((), [[0, 0], [0, 0]])) 2) 0 1) \<noteq> [] \<and>
   0 < len (Slide [[5, 0]] () [[0, 0, 0], [0, 1, 0], [0, 0, 0]]
       (\<lambda>idx. if idx = 1 then ((), [[0, 0, 0], [0, 1, 0], [0, 0, 0]])
               else ((), [[0, 0], [0, 0]])) 2) \<and>
   (\<exists>p. getitem 2 (Slide [[5, 0]] () [[0, 0, 0], [0, 1, 0], [0, 0, 0]]
       (\<lambda>idx. if idx = 1 then ((), [[0, 0, 0], [0, 1, 0], [0, 0, 0]])
               else ((), [[0, 0], [0, 0]])) 2) 0 = Inr p \<and> patch_data p \<noteq> []) \<and>
   getitem 2 (Slide [[5, 0]] () [[0, 0, 0], [0, 1, 0], [0, 0, 0]]
       (\<lambda>idx. if idx = 1 then ((), [[0, 0, 0], [0, 1, 0], [0, 0, 0]])
               else ((), [[0, 0], [0, 0]])) 2) 0 =
     Inr \<lparr>patch_image = (), patch_label = [[0, 0, 0], [0, 1, 0], [0, 0, 0]],
          patch_data = [[5, 0]], patch_type = ''ST''\<rparr>"
proof -
  let ?s = "Slide [[5, 0]] () [[0, 0, 0], [0, 1, 0], [0, 0, 0]]
       (\<lambda>idx. if idx = 1 then ((), [[0, 0, 0], [0, 1, 0], [0, 0, 0]])
               else ((), [[0, 0], [0, 0]])) 2"
  have at1: "surviving_ids ?s 1 = [1]"
    unfolding surviving_ids_def by code_simp
  have at0: "surviving_ids ?s 0 = []"
    unfolding surviving_ids_def by code_simp
  have other: "surviving_ids ?s i = surviving_ids ?s 0" if "i \<noteq> 1" for i
    using that by (simp add: surviving_ids_def Slide_def)
  have h1: "(1::nat) < 2" by simp
  have idx: "retry_index ?s 0 1 = 1"
    by (simp add: Slide_def)
  have h2: "surviving_ids ?s (retry_index ?s 0 1) \<noteq> []"
    by (simp only: idx at1) simp
  have h3: "0 < len ?s" by (simp add: Slide_def)
  have h4: "list_all (\<lambda>x. x \<le> length (slide_data ?s)) (surviving_ids ?s i)" for i
  proof (cases "i = 1")
    case True
    then show ?thesis by (simp only: at1) (simp add: Slide_def)
  next
    case False
    have "surviving_ids ?s i = []"
      using other[OF False] at0 by (rule trans)
    then show ?thesis by (simp only: list.pred_inject)
  qed
  have run: "getitem 2 ?s 0 =
     Inr \<lparr>patch_image = (), patch_label = [[0, 0, 0], [0, 1, 0], [0, 0, 0]],
          patch_data = [[5, 0]], patch_type = ''ST''\<rparr>"
    by code_simp
  from getitem_returns[OF h1 h2 h3 h4] h1 h2 h3 run show ?thesis by blast
qed

section \<open>The ranks of the labels\<close>

lemma takeWhile_less_sorted:
  "sorted xs \<Longrightarrow> takeWhile (\<lambda>y. y < x) xs = filter (\<lambda>y. y < (x::nat)) xs"
proof (induction xs)
  case Nil
  then show ?case by simp
next
  case (Cons a xs)
  show ?case
  proof (cases "a < x")
    case True
    with Cons show ?thesis by simp
  next
    case False
    with Cons.prems have "\<forall>y \<in> set xs. \<not> y < x" by auto
    then have "filter (\<lambda>y. y < x) xs = []" by (simp add: filter_empty_conv)
    with False show ?thesis by simp
  qed
qed

text \<open>The rank of an id is the number of ids of the patch below it.\<close>

lemma searchsorted_rank:
  "searchsorted (unique_labels label) x = card {y \<in> set (concat label). y < x}"
proof -
  have "searchsorted (unique_labels label) x =
        length (filter (\<lambda>y. y < x) (unique_labels label))"
    by (simp add: searchsorted_def unique_labels_def takeWhile_less_sorted)
  also have "\<dots> = card ({y. y < x} \<inter> set (unique_labels label))"
    by (rule distinct_length_filter) (simp add: unique_labels_def)
  also have "{y. y < x} \<inter> set (unique_labels label) = {y \<in> set (concat label). y < x}"
    by (auto simp: unique_labels_def)
  finally show ?thesis .
qed

text \<open>
  With the background in the patch, the background has the rank \<open>0\<close> and a segment id
  has one more than the number of segment ids below it.
\<close>

lemma searchsorted_rank_with_background:
  assumes "0 \<in> set (concat label)" and "0 < x"
  shows "searchsorted (unique_labels label) x =
         Suc (card {y \<in> set (concat label). 0 < y \<and> y < x})"
proof -
  have "{y \<in> set (concat label). y < x} = insert 0 {y \<in> set (concat label). 0 < y \<and> y < x}"
    using assms by auto
  moreover have "finite {y \<in> set (concat label). 0 < y \<and> y < x}" by simp
  ultimately show ?thesis by (simp add: searchsorted_rank)
qed

text \<open>Without it, every rank is one less: the smallest segment id has the rank \<open>0\<close>.\<close>

lemma searchsorted_rank_without_background:
  assumes "0 \<notin> set (concat label)"
  shows "searchsorted (unique_labels label) x = card {y \<in> set (concat label). 0 < y \<and> y < x}"
proof -
  have "{y \<in> set (concat label). y < x} = {y \<in> set (concat label). 0 < y \<and> y < x}"
    using assms by (auto intro: Nat.gr0I)
  then show ?thesis by (simp add: searchsorted_rank)
qed

text \<open>
  C7: in every returned patch the smallest segment id left should have the rank \<open>1\<close>,
  the next the rank \<open>2\<close>, also when the background does not occur in the patch. It has
  not: in the patch below the segment \<open>5\<close> lies inside the segment \<open>3\<close>, which has no
  counts, and no cell is background. Segment \<open>3\<close> gets the rank \<open>0\<close>, that of the
  background, and segment \<open>5\<close> the rank \<open>1\<close>, while the count rows returned are those of
  \<open>3\<close> and \<open>5\<close> in this order. The patch is returned by the first call, whatever the
  number of frames left beyond its own.
\<close>

theorem getitem_ranks_without_background:
  "getitem (Suc depth) (Slide [[5, 0], [0, 0], [0, 0], [0, 0], [7, 1]] ()
              [[3, 3, 3], [3, 5, 3], [3, 3, 3]]
              (\<lambda>idx. ((), [[3, 3, 3], [3, 5, 3], [3, 3, 3]])) 1) 0 =
   Inr \<lparr>patch_image = (),
        patch_label = [[0, 0, 0], [0, 1, 0], [0, 0, 0]],
        patch_data = [[0, 0], [7, 1]],
        patch_type = ''ST''\<rparr>"
  by code_simp

end
